theory Spec2Isabelle
  imports Complex_Main "HOL-Library.FSet" "HOL-Library.List_Lexorder" "HOL-Library.Product_Lexorder"
begin

section \<open>The n-puzzle notebook: boards, moves, heuristics and the two searches\<close>

text \<open>
  A shallow embedding of \<^verbatim>\<open>n-puzzle.ipynb\<close>. The notebook's functions are pure up to
  three effects, which are written out here:
  \<^item> exceptions (\<^verbatim>\<open>IndexError\<close>, \<^verbatim>\<open>KeyError\<close>, \<^verbatim>\<open>ValueError\<close>) are values of a sum type,
    \<open>Inl\<close> carrying the error;
  \<^item> the module constant \<^verbatim>\<open>PUZZLE_DIM\<close> is the first argument \<open>d\<close> of every function that
    reads it (its value in the notebook is \<open>PUZZLE_DIM = 3\<close>); it is a positive number,
    for \<^verbatim>\<open>PUZZLE_DIM = 0\<close> the notebook's \<^verbatim>\<open>reshape\<close> raises;
  \<^item> the two \<^verbatim>\<open>while\<close> loops are partial functions into \<open>option\<close>: \<open>None\<close> is a run that
    never returns.
\<close>

subsection \<open>Data\<close>

datatype py_error = IndexError | KeyError | ValueError

text \<open>
  A two-dimensional \<^verbatim>\<open>np.ndarray\<close> of integers is the list of its rows; an array has rows
  of one length. A cell of dtype \<^verbatim>\<open>int64\<close> is an \<open>int\<close>: the notebook never does
  arithmetic on cells, it compares and moves them.
\<close>

type_synonym ndarray = "int list list"

type_synonym pos = "int \<times> int"

text \<open>\<^verbatim>\<open>action = namedtuple('Action', ['pos1', 'pos2'])\<close>: a pair, compared as a tuple.\<close>

type_synonym action = "pos \<times> pos"

definition pos1 :: "action \<Rightarrow> pos" where
  "pos1 a = fst a"

definition pos2 :: "action \<Rightarrow> pos" where
  "pos2 a = snd a"

definition PUZZLE_DIM :: nat where
  "PUZZLE_DIM = 3"

definition shape :: "ndarray \<Rightarrow> nat \<times> nat" where
  "shape s = (length s, case s of [] \<Rightarrow> 0 | r # _ \<Rightarrow> length r)"

definition is_array :: "ndarray \<Rightarrow> bool" where
  "is_array s = list_all (\<lambda>r. length r = snd (shape s)) s"

text \<open>
  The index of one axis of length \<open>n\<close>: Python counts a negative index from the end and
  raises \<^verbatim>\<open>IndexError\<close> outside \<open>-n \<dots> n-1\<close>.
\<close>

definition norm_index :: "nat \<Rightarrow> int \<Rightarrow> nat option" where
  "norm_index n i =
     (if 0 \<le> i \<and> i < int n then Some (nat i)
      else if - int n \<le> i \<and> i < 0 then Some (nat (int n + i))
      else None)"

definition norm_pos :: "ndarray \<Rightarrow> pos \<Rightarrow> (nat \<times> nat) option" where
  "norm_pos s p =
     (case norm_index (fst (shape s)) (fst p) of
        None \<Rightarrow> None
      | Some i \<Rightarrow> (case norm_index (snd (shape s)) (snd p) of
                    None \<Rightarrow> None
                  | Some j \<Rightarrow> Some (i, j)))"

text \<open>\<^verbatim>\<open>state[p]\<close> and \<^verbatim>\<open>state[p] = v\<close> for a tuple \<open>p\<close> of two integers.\<close>

definition getitem :: "ndarray \<Rightarrow> pos \<Rightarrow> py_error + int" where
  "getitem s p = (case norm_pos s p of None \<Rightarrow> Inl IndexError | Some (i, j) \<Rightarrow> Inr (s ! i ! j))"

definition setitem :: "ndarray \<Rightarrow> pos \<Rightarrow> int \<Rightarrow> py_error + ndarray" where
  "setitem s p v =
     (case norm_pos s p of
        None \<Rightarrow> Inl IndexError
      | Some (i, j) \<Rightarrow> Inr (s[i := (s ! i)[j := v]]))"

text \<open>
  \<^verbatim>\<open>np.array([i for i in range(1, PUZZLE_DIM**2)] + [0]).reshape((PUZZLE_DIM, PUZZLE_DIM))\<close>:
  the flat list cut into rows of length \<open>d\<close>.
\<close>

fun chop :: "nat \<Rightarrow> nat \<Rightarrow> 'a list \<Rightarrow> 'a list list" where
  "chop 0 c xs = []"
| "chop (Suc r) c xs = take c xs # chop r c (drop c xs)"

definition goal :: "nat \<Rightarrow> ndarray" where
  "goal d = chop d d (map int [1..<d * d] @ [0])"

text \<open>
  A valid board of dimension \<open>d\<close>: a \<open>d \<times> d\<close> array holding each of \<open>0 \<dots> d\<^sup>2-1\<close> once.
\<close>

definition valid_board :: "nat \<Rightarrow> ndarray \<Rightarrow> bool" where
  "valid_board d s \<longleftrightarrow>
     0 < d \<and> length s = d \<and> list_all (\<lambda>r. length r = d) s \<and> sort (concat s) = map int [0..<d * d]"

subsection \<open>Moves\<close>

text \<open>
  \<^verbatim>\<open>np.where(state == 0)\<close> lists the positions of the zero cells in row-major order, as one
  array of row indices and one of column indices; \<^verbatim>\<open>_[0]\<close> takes the first of each and
  raises \<^verbatim>\<open>IndexError\<close> when there is no zero.
\<close>

definition where_zero :: "ndarray \<Rightarrow> (nat \<times> nat) list" where
  "where_zero s =
     concat (map (\<lambda>i. map (\<lambda>j. (i, j)) (filter (\<lambda>j. s ! i ! j = 0) [0..<length (s ! i)]))
                 [0..<length s])"

definition available_actions :: "nat \<Rightarrow> ndarray \<Rightarrow> py_error + action list" where
  "available_actions d state =
     (case where_zero state of
        [] \<Rightarrow> Inl IndexError
      | (i, j) # _ \<Rightarrow>
          (let x = int i; y = int j in
           Inr ((if x > 0 then [((x, y), (x - 1, y))] else []) @
                (if x < int d - 1 then [((x, y), (x + 1, y))] else []) @
                (if y > 0 then [((x, y), (x, y - 1))] else []) @
                (if y < int d - 1 then [((x, y), (x, y + 1))] else []))))"

text \<open>
  \<^verbatim>\<open>do_action\<close> on array values: the copy is the value itself. The right-hand side of the
  tuple assignment is read first (\<^verbatim>\<open>new_state[action.pos2]\<close>, then
  \<^verbatim>\<open>new_state[action.pos1]\<close>), then the two cells are written from left to right. There
  is no check that the move is one of \<^verbatim>\<open>available_actions\<close>.
\<close>

definition do_action :: "ndarray \<Rightarrow> action \<Rightarrow> py_error + ndarray" where
  "do_action state a =
     (case getitem state (pos2 a) of
        Inl e \<Rightarrow> Inl e
      | Inr v2 \<Rightarrow>
          (case getitem state (pos1 a) of
             Inl e \<Rightarrow> Inl e
           | Inr v1 \<Rightarrow>
               (case setitem state (pos1 a) v2 of
                  Inl e \<Rightarrow> Inl e
                | Inr s1 \<Rightarrow> setitem s1 (pos2 a) v1)))"

text \<open>
  \<^verbatim>\<open>do_action\<close> on objects. Arrays are mutable objects, so whether the caller's array
  survives the call is a question about the store: a store is the list of the arrays
  allocated so far, an address is an index into it. \<^verbatim>\<open>state.copy()\<close> allocates a new
  array with the cells of the old one, and the two assignments write into that new object
  in place. The store is returned also when the call raises.
\<close>

type_synonym store = "ndarray list"

definition copy_obj :: "store \<Rightarrow> nat \<Rightarrow> nat \<times> store" where
  "copy_obj \<sigma> r = (length \<sigma>, \<sigma> @ [\<sigma> ! r])"

definition setitem_obj :: "store \<Rightarrow> nat \<Rightarrow> pos \<Rightarrow> int \<Rightarrow> (py_error + unit) \<times> store" where
  "setitem_obj \<sigma> r p v =
     (case setitem (\<sigma> ! r) p v of
        Inl e \<Rightarrow> (Inl e, \<sigma>)
      | Inr arr \<Rightarrow> (Inr (), \<sigma>[r := arr]))"

definition do_action_obj :: "store \<Rightarrow> nat \<Rightarrow> action \<Rightarrow> (py_error + nat) \<times> store" where
  "do_action_obj \<sigma> state a =
     (let (new_state, \<sigma>1) = copy_obj \<sigma> state in
      case getitem (\<sigma>1 ! new_state) (pos2 a) of
        Inl e \<Rightarrow> (Inl e, \<sigma>1)
      | Inr v2 \<Rightarrow>
          (case getitem (\<sigma>1 ! new_state) (pos1 a) of
             Inl e \<Rightarrow> (Inl e, \<sigma>1)
           | Inr v1 \<Rightarrow>
               (case setitem_obj \<sigma>1 new_state (pos1 a) v2 of
                  (Inl e, \<sigma>2) \<Rightarrow> (Inl e, \<sigma>2)
                | (Inr _, \<sigma>2) \<Rightarrow>
                    (case setitem_obj \<sigma>2 new_state (pos2 a) v1 of
                       (Inl e, \<sigma>3) \<Rightarrow> (Inl e, \<sigma>3)
                     | (Inr _, \<sigma>3) \<Rightarrow> (Inr new_state, \<sigma>3)))))"

definition is_goal :: "nat \<Rightarrow> ndarray \<Rightarrow> bool" where
  "is_goal d state \<longleftrightarrow> state = goal d"

text \<open>
  \<^verbatim>\<open>state != goal\<close> broadcasts the two shapes (an axis of length 1 stretches) and raises
  \<^verbatim>\<open>ValueError\<close> when they do not fit; \<^verbatim>\<open>np.sum\<close> counts the cells that differ.
\<close>

definition broadcast_dim :: "nat \<Rightarrow> nat \<Rightarrow> nat option" where
  "broadcast_dim m n =
     (if m = n then Some m else if m = 1 then Some n else if n = 1 then Some m else None)"

definition bcell :: "ndarray \<Rightarrow> nat \<Rightarrow> nat \<Rightarrow> int" where
  "bcell s i j = s ! (if fst (shape s) = 1 then 0 else i) ! (if snd (shape s) = 1 then 0 else j)"

definition difference_from_goal :: "nat \<Rightarrow> ndarray \<Rightarrow> py_error + int" where
  "difference_from_goal d state =
     (case broadcast_dim (fst (shape state)) d of
        None \<Rightarrow> Inl ValueError
      | Some r \<Rightarrow>
          (case broadcast_dim (snd (shape state)) d of
             None \<Rightarrow> Inl ValueError
           | Some c \<Rightarrow>
               Inr (int (length (filter (\<lambda>(i, j). bcell state i j \<noteq> bcell (goal d) i j)
                                        (List.product [0..<r] [0..<c]))))))"

subsection \<open>Heuristics\<close>

text \<open>
  \<^verbatim>\<open>goal_positions = {i: (i // PUZZLE_DIM, i % PUZZLE_DIM) for i in range(1, PUZZLE_DIM ** 2)}\<close>:
  a dictionary with the keys \<open>1 \<dots> d\<^sup>2-1\<close>; a lookup of another key raises \<^verbatim>\<open>KeyError\<close>.
\<close>

definition goal_positions :: "nat \<Rightarrow> int \<Rightarrow> (int \<times> int) option" where
  "goal_positions d v =
     (if 1 \<le> v \<and> v < int (d ^ 2) then Some (v div int d, v mod int d) else None)"

text \<open>The two nested \<^verbatim>\<open>for\<close> loops of \<^verbatim>\<open>manhattan_distance\<close>, over the positions in order.\<close>

fun manhattan_loop :: "nat \<Rightarrow> ndarray \<Rightarrow> (nat \<times> nat) list \<Rightarrow> int \<Rightarrow> py_error + int" where
  "manhattan_loop d state [] distance = Inr distance"
| "manhattan_loop d state ((x, y) # ps) distance =
     (case getitem state (int x, int y) of
        Inl e \<Rightarrow> Inl e
      | Inr v \<Rightarrow>
          if v \<noteq> 0 then
            (case goal_positions d v of
               None \<Rightarrow> Inl KeyError
             | Some (goal_x, goal_y) \<Rightarrow>
                 manhattan_loop d state ps
                   (distance + (\<bar>int x - goal_x\<bar> + \<bar>int y - goal_y\<bar>)))
          else manhattan_loop d state ps distance)"

definition manhattan_distance :: "nat \<Rightarrow> ndarray \<Rightarrow> py_error + int" where
  "manhattan_distance d state = manhattan_loop d state (List.product [0..<d] [0..<d]) 0"

text \<open>
  \<^verbatim>\<open>sum((x > y) for j, x in enumerate(row) for y in row[j + 1:])\<close>: the number of pairs
  of a line that stand in descending order.
\<close>

fun inversions :: "int list \<Rightarrow> int" where
  "inversions [] = 0"
| "inversions (x # xs) = int (length (filter (\<lambda>y. x > y) xs)) + inversions xs"

definition column :: "ndarray \<Rightarrow> nat \<Rightarrow> int list" where
  "column s i = map (\<lambda>r. r ! i) s"

text \<open>
  \<^verbatim>\<open>state[i, :]\<close> raises \<^verbatim>\<open>IndexError\<close> when the array has no row \<open>i\<close>, \<^verbatim>\<open>state[:, i]\<close>
  when it has no column \<open>i\<close>.
\<close>

fun linear_conflict_loop :: "ndarray \<Rightarrow> nat list \<Rightarrow> int \<Rightarrow> py_error + int" where
  "linear_conflict_loop state [] conflict = Inr conflict"
| "linear_conflict_loop state (i # is) conflict =
     (if i < fst (shape state) \<and> i < snd (shape state) then
        linear_conflict_loop state is
          (conflict + inversions (state ! i) + inversions (column state i))
      else Inl IndexError)"

definition linear_conflict :: "nat \<Rightarrow> ndarray \<Rightarrow> py_error + int" where
  "linear_conflict d state = linear_conflict_loop state [0..<d] 0"

text \<open>
  A sequence of moves played from a board, each of them one of \<^verbatim>\<open>available_actions\<close> of
  the board it is applied to: the boards reachable by \<open>k\<close> legal moves are the results of
  the sequences of length \<open>k\<close>.
\<close>

fun play :: "nat \<Rightarrow> ndarray \<Rightarrow> action list \<Rightarrow> ndarray option" where
  "play d s [] = Some s"
| "play d s (a # as) =
     (case available_actions d s of
        Inl e \<Rightarrow> None
      | Inr acts \<Rightarrow>
          if a \<in> set acts then
            (case do_action s a of Inl e \<Rightarrow> None | Inr s' \<Rightarrow> play d s' as)
          else None)"

subsection \<open>Keys and the priority queue\<close>

text \<open>
  \<^verbatim>\<open>tobytes()\<close>: the cells in row-major order, each as the eight bytes of its 64-bit
  two's-complement value, least significant byte first. \<^verbatim>\<open>np.frombuffer(b, dtype=int)\<close>
  reads them back and raises \<^verbatim>\<open>ValueError\<close> when the length is not a multiple of eight;
  \<^verbatim>\<open>reshape\<close> raises \<^verbatim>\<open>ValueError\<close> when the number of cells does not fit the shape.
\<close>

definition int64_bytes :: "int \<Rightarrow> nat list" where
  "int64_bytes v = map (\<lambda>k. nat ((v div 256 ^ k) mod 256)) [0..<8]"

definition tobytes :: "ndarray \<Rightarrow> nat list" where
  "tobytes s = concat (map int64_bytes (concat s))"

definition int64_of_bytes :: "nat list \<Rightarrow> int" where
  "int64_of_bytes bs =
     (let u = foldr (\<lambda>b acc. int b + 256 * acc) bs 0
      in if u < 2 ^ 63 then u else u - 2 ^ 64)"

definition frombuffer :: "nat list \<Rightarrow> py_error + int list" where
  "frombuffer bs =
     (if length bs mod 8 = 0 then Inr (map int64_of_bytes (chop (length bs div 8) 8 bs))
      else Inl ValueError)"

definition reshape :: "int list \<Rightarrow> nat \<times> nat \<Rightarrow> py_error + ndarray" where
  "reshape xs shp =
     (if length xs = fst shp * snd shp then Inr (chop (fst shp) (snd shp) xs)
      else Inl ValueError)"

text \<open>
  \<^verbatim>\<open>heapq\<close> is the standard library's binary heap over a list. The notebook only pushes,
  pops and tests the list for emptiness, so the queue is modelled by what these show: the
  list holds the entries, \<^verbatim>\<open>heappush\<close> adds one, \<^verbatim>\<open>heappop\<close> removes and returns the least
  entry. Entries are tuples, which Python compares lexicographically, component by
  component; this is the order of pairs and lists used here. \<^verbatim>\<open>heappop\<close> is only called
  on a non-empty list (the loop conditions test it).
\<close>

definition heappush :: "'a list \<Rightarrow> 'a \<Rightarrow> 'a list" where
  "heappush h e = h @ [e]"

definition heap_min :: "('a::linorder) list \<Rightarrow> 'a" where
  "heap_min h = fold min (tl h) (hd h)"

definition heappop :: "('a::linorder) list \<Rightarrow> 'a \<times> 'a list" where
  "heappop h = (heap_min h, remove1 (heap_min h) h)"

subsection \<open>A* search\<close>

text \<open>
  An entry of \<^verbatim>\<open>open_list\<close> is \<^verbatim>\<open>(priority, state_bytes, path)\<close>. The loop state is
  \<^verbatim>\<open>open_list\<close> and \<^verbatim>\<open>closed_set\<close>; \<open>pushed\<close> is a history variable that the notebook
  does not have: the keys given to \<^verbatim>\<open>heappush\<close> so far, in order. Nothing reads it.
\<close>

type_synonym entry = "int \<times> nat list \<times> action list"

record astar_state =
  open_list :: "entry list"
  closed_set :: "nat list fset"
  pushed :: "nat list list"

text \<open>
  The two statements that change the loop state: \<^verbatim>\<open>heappush(open_list, entry)\<close>, which is
  also the one place where the history variable is written, and \<^verbatim>\<open>closed_set.add(key)\<close>.
\<close>

definition push_open :: "astar_state \<Rightarrow> entry \<Rightarrow> astar_state" where
  "push_open st e =
     st\<lparr>open_list := heappush (open_list st) e, pushed := pushed st @ [fst (snd e)]\<rparr>"

definition add_closed :: "astar_state \<Rightarrow> nat list \<Rightarrow> astar_state" where
  "add_closed st k = st\<lparr>closed_set := finsert k (closed_set st)\<rparr>"

text \<open>The result tuple \<^verbatim>\<open>(path, quality, cost)\<close>; \<open>None\<close> is Python's \<^verbatim>\<open>None\<close>.\<close>

type_synonym astar_result = "action list option \<times> int \<times> int"

text \<open>The \<^verbatim>\<open>for action in available_actions(current_state)\<close> loop.\<close>

fun expand :: "nat \<Rightarrow> ndarray \<Rightarrow> action list \<Rightarrow> action list \<Rightarrow> astar_state
    \<Rightarrow> py_error + astar_state" where
  "expand d current_state path [] st = Inr st"
| "expand d current_state path (a # acts) st =
     (case do_action current_state a of
        Inl e \<Rightarrow> Inl e
      | Inr next_state \<Rightarrow>
          (let next_state_bytes = tobytes next_state in
           if next_state_bytes |\<notin>| closed_set st then
             (let next_path = path @ [a] in
              case manhattan_distance d next_state of
                Inl e \<Rightarrow> Inl e
              | Inr m \<Rightarrow>
                  (case linear_conflict d next_state of
                     Inl e \<Rightarrow> Inl e
                   | Inr c \<Rightarrow>
                       (let priority = m + 2 * c + int (length next_path) in
                        expand d current_state path acts
                          (add_closed
                             (push_open st (priority, next_state_bytes, next_path))
                             next_state_bytes))))
           else expand d current_state path acts st))"

text \<open>
  One turn of the \<^verbatim>\<open>while open_list:\<close> loop, entered with a non-empty \<^verbatim>\<open>open_list\<close>:
  it raises, returns (\<open>Inr (Inl result)\<close>) or goes on with a new loop state.
\<close>

definition A_star_body :: "nat \<Rightarrow> nat \<times> nat \<Rightarrow> astar_state
    \<Rightarrow> py_error + (astar_result + astar_state)" where
  "A_star_body d shp st =
     (case heappop (open_list st) of
        ((heuristic, current_state_bytes, path), rest) \<Rightarrow>
          (case frombuffer current_state_bytes of
             Inl e \<Rightarrow> Inl e
           | Inr flat \<Rightarrow>
               (case reshape flat shp of
                  Inl e \<Rightarrow> Inl e
                | Inr current_state \<Rightarrow>
                    if is_goal d current_state then
                      Inr (Inl (Some path, int (length path), int (fcard (closed_set st))))
                    else
                      (case available_actions d current_state of
                         Inl e \<Rightarrow> Inl e
                       | Inr acts \<Rightarrow>
                           (case expand d current_state path acts (st\<lparr>open_list := rest\<rparr>) of
                              Inl e \<Rightarrow> Inl e
                            | Inr st' \<Rightarrow> Inr (Inr st'))))))"

partial_function (option) A_star_loop :: "nat \<Rightarrow> nat \<times> nat \<Rightarrow> astar_state
    \<Rightarrow> (py_error + astar_result) option" where
  "A_star_loop d shp st =
     (if open_list st \<noteq> [] then
        (case A_star_body d shp st of
           Inl e \<Rightarrow> Some (Inl e)
         | Inr (Inl result) \<Rightarrow> Some (Inr result)
         | Inr (Inr st') \<Rightarrow> A_star_loop d shp st')
      else Some (Inr (None, - 1, int (fcard (closed_set st)))))"

declare A_star_loop.simps [code]

text \<open>
  The statements before the loop: the empty \<^verbatim>\<open>open_list\<close>, the first push, and the
  \<^verbatim>\<open>closed_set\<close> with the start key (the notebook creates the empty set after the push).
\<close>

definition A_star_init :: "nat \<Rightarrow> ndarray \<Rightarrow> py_error + astar_state" where
  "A_star_init d initial_state =
     (case manhattan_distance d initial_state of
        Inl e \<Rightarrow> Inl e
      | Inr m \<Rightarrow>
          Inr (add_closed
                 (push_open \<lparr>open_list = [], closed_set = {||}, pushed = []\<rparr>
                    (m, tobytes initial_state, []))
                 (tobytes initial_state)))"

definition A_star :: "nat \<Rightarrow> ndarray \<Rightarrow> (py_error + astar_result) option" where
  "A_star d initial_state =
     (case A_star_init d initial_state of
        Inl e \<Rightarrow> Some (Inl e)
      | Inr st \<Rightarrow> A_star_loop d (shape initial_state) st)"

text \<open>
  The loop state after \<open>n\<close> complete turns of the loop, when the run gets that far
  without returning or raising.
\<close>

fun A_star_iter :: "nat \<Rightarrow> nat \<times> nat \<Rightarrow> nat \<Rightarrow> astar_state \<Rightarrow> astar_state option" where
  "A_star_iter d shp 0 st = Some st"
| "A_star_iter d shp (Suc n) st =
     (if open_list st \<noteq> [] then
        (case A_star_body d shp st of
           Inr (Inr st') \<Rightarrow> A_star_iter d shp n st'
         | _ \<Rightarrow> None)
      else None)"

subsection \<open>Beam search\<close>

text \<open>
  An entry of \<^verbatim>\<open>priority_queue\<close> is \<^verbatim>\<open>(priority, state_tuple)\<close>;
  \<^verbatim>\<open>tuple(map(tuple, state))\<close> and \<^verbatim>\<open>np.array(state_tuple)\<close> are the list of rows both
  ways. The first priority is an integer, the later ones are the floating-point values of
  \<^verbatim>\<open>0.8 * difference_from_goal(new_state) + 0.2 * manhattan_distance(new_state)\<close>. Floating
  point arithmetic is not modelled: it is the parameter \<open>score\<close>, any function of the two
  integers into the reals (a finite float is a real number, and floats compare as they
  do). \<^verbatim>\<open>random.choice\<close> reads the parameter \<open>rnd\<close>, the sequence of random draws, at the
  position \<open>draws\<close> of the loop state and picks the element at \<open>rnd draws mod len\<close>; it
  raises \<^verbatim>\<open>IndexError\<close> on an empty list.
\<close>

record beam_state =
  priority_queue :: "(real \<times> ndarray) list"
  visited :: "ndarray fset"
  total_nodes_evaluated :: int
  cur_state :: ndarray
  draws :: nat

type_synonym beam_result = "ndarray \<times> int \<times> int"

definition choice :: "(nat \<Rightarrow> nat) \<Rightarrow> nat \<Rightarrow> 'a list \<Rightarrow> py_error + 'a" where
  "choice rnd k xs = (if xs = [] then Inl IndexError else Inr (xs ! (rnd k mod length xs)))"

text \<open>The \<^verbatim>\<open>for _ in range(beam_size)\<close> loop, with the number of turns left.\<close>

fun beam_expand :: "nat \<Rightarrow> (int \<Rightarrow> int \<Rightarrow> real) \<Rightarrow> (nat \<Rightarrow> nat) \<Rightarrow> nat \<Rightarrow> beam_state
    \<Rightarrow> py_error + beam_state" where
  "beam_expand d score rnd 0 st = Inr st"
| "beam_expand d score rnd (Suc k) st =
     (case available_actions d (cur_state st) of
        Inl e \<Rightarrow> Inl e
      | Inr acts \<Rightarrow>
          (case choice rnd (draws st) acts of
             Inl e \<Rightarrow> Inl e
           | Inr a \<Rightarrow>
               (case do_action (cur_state st) a of
                  Inl e \<Rightarrow> Inl e
                | Inr new_state \<Rightarrow>
                    if new_state |\<notin>| visited st then
                      (case difference_from_goal d new_state of
                         Inl e \<Rightarrow> Inl e
                       | Inr df \<Rightarrow>
                           (case manhattan_distance d new_state of
                              Inl e \<Rightarrow> Inl e
                            | Inr m \<Rightarrow>
                                beam_expand d score rnd k
                                  (st\<lparr>priority_queue :=
                                        heappush (priority_queue st) (score df m, new_state),
                                      total_nodes_evaluated := total_nodes_evaluated st + 1,
                                      draws := Suc (draws st)\<rparr>)))
                    else beam_expand d score rnd k (st\<lparr>draws := Suc (draws st)\<rparr>))))"

partial_function (option) beam_loop :: "nat \<Rightarrow> (int \<Rightarrow> int \<Rightarrow> real) \<Rightarrow> (nat \<Rightarrow> nat) \<Rightarrow> int
    \<Rightarrow> beam_state \<Rightarrow> (py_error + beam_result) option" where
  "beam_loop d score rnd beam_size st =
     (if priority_queue st \<noteq> [] \<and> \<not> is_goal d (cur_state st) then
        (case heappop (priority_queue st) of
           ((priority, state_tuple), rest) \<Rightarrow>
             (let st1 = st\<lparr>priority_queue := rest, cur_state := state_tuple,
                           visited := finsert state_tuple (visited st)\<rparr>
              in if is_goal d (cur_state st1) then
                   Some (Inr (cur_state st1, total_nodes_evaluated st1, int (fcard (visited st1))))
                 else
                   (case beam_expand d score rnd (nat beam_size) st1 of
                      Inl e \<Rightarrow> Some (Inl e)
                    | Inr st2 \<Rightarrow> beam_loop d score rnd beam_size st2)))
      else Some (Inr (cur_state st, total_nodes_evaluated st, int (fcard (visited st)))))"

declare beam_loop.simps [code]

definition beam_search :: "nat \<Rightarrow> (int \<Rightarrow> int \<Rightarrow> real) \<Rightarrow> (nat \<Rightarrow> nat) \<Rightarrow> ndarray \<Rightarrow> int
    \<Rightarrow> (py_error + beam_result) option" where
  "beam_search d score rnd state beam_size =
     (case difference_from_goal d state of
        Inl e \<Rightarrow> Some (Inl e)
      | Inr initial_priority \<Rightarrow>
          beam_loop d score rnd beam_size
            \<lparr>priority_queue = heappush [] (of_int initial_priority, state),
             visited = {||},
             total_nodes_evaluated = 0,
             cur_state = state,
             draws = 0\<rparr>)"

subsection \<open>Notions used in the statements\<close>

text \<open>The cell at a position inside the array, and the array with one cell replaced.\<close>

definition cell :: "ndarray \<Rightarrow> nat \<times> nat \<Rightarrow> int" where
  "cell s p = s ! fst p ! snd p"

definition put :: "ndarray \<Rightarrow> nat \<times> nat \<Rightarrow> int \<Rightarrow> ndarray" where
  "put s p v = s[fst p := (s ! fst p)[snd p := v]]"

text \<open>
  \<open>exchanged s p q s'\<close>: \<open>s'\<close> is an array of the shape of \<open>s\<close> that holds at \<open>p\<close> what
  \<open>s\<close> holds at \<open>q\<close>, at \<open>q\<close> what \<open>s\<close> holds at \<open>p\<close>, and everywhere else what \<open>s\<close> holds.
\<close>

definition exchanged :: "ndarray \<Rightarrow> nat \<times> nat \<Rightarrow> nat \<times> nat \<Rightarrow> ndarray \<Rightarrow> bool" where
  "exchanged s p q s' \<longleftrightarrow>
     shape s' = shape s \<and> is_array s' \<and>
     (\<forall>i \<in> {0..<fst (shape s)}. \<forall>j \<in> {0..<snd (shape s)}.
        cell s' (i, j) =
          (if (i, j) = p then cell s q else if (i, j) = q then cell s p else cell s (i, j)))"

text \<open>
  \<open>frontier_closed\<close>: the keys pushed so far are pairwise different, they are exactly the
  members of \<^verbatim>\<open>closed_set\<close>, and every entry of \<^verbatim>\<open>open_list\<close> carries one of them.
\<close>

definition frontier_closed :: "astar_state \<Rightarrow> bool" where
  "frontier_closed st \<longleftrightarrow>
     distinct (pushed st) \<and> fset (closed_set st) = set (pushed st) \<and>
     (\<forall>e \<in> set (open_list st). fst (snd e) \<in> set (pushed st))"

definition in_grid :: "nat \<Rightarrow> pos \<Rightarrow> bool" where
  "in_grid d p \<longleftrightarrow> 0 \<le> fst p \<and> fst p < int d \<and> 0 \<le> snd p \<and> snd p < int d"

definition adjacent :: "pos \<Rightarrow> pos \<Rightarrow> bool" where
  "adjacent p q \<longleftrightarrow> \<bar>fst p - fst q\<bar> + \<bar>snd p - snd q\<bar> = 1"

text \<open>The four neighbours of a cell in the order up, down, left, right.\<close>

definition neighbours :: "nat \<times> nat \<Rightarrow> action list" where
  "neighbours p =
     (let x = int (fst p); y = int (snd p)
      in [((x, y), (x - 1, y)), ((x, y), (x + 1, y)), ((x, y), (x, y - 1)), ((x, y), (x, y + 1))])"

section \<open>Properties\<close>

subsection \<open>The heuristics\<close>

lemma manhattan_loop_nonneg:
  "manhattan_loop d s ps acc = Inr m \<Longrightarrow> 0 \<le> acc \<Longrightarrow> 0 \<le> m"
proof (induction ps arbitrary: acc)
  case Nil
  then show ?case by simp
next
  case (Cons p ps)
  obtain x y where p: "p = (x, y)" by (cases p)
  from Cons.prems show ?case
    unfolding p
    by (auto split: sum.splits if_splits option.splits dest!: Cons.IH)
qed

lemma inversions_nonneg: "0 \<le> inversions xs"
  by (induction xs) auto

lemma linear_conflict_loop_nonneg:
  "linear_conflict_loop s is acc = Inr c \<Longrightarrow> 0 \<le> acc \<Longrightarrow> 0 \<le> c"
proof (induction "is" arbitrary: acc)
  case Nil
  then show ?case by simp
next
  case (Cons i "is")
  from Cons.prems show ?case
    by (auto split: if_splits dest!: Cons.IH simp: inversions_nonneg)
qed

text \<open>Whatever the board, a heuristic that returns a value returns a non-negative one.\<close>

lemma heuristics_nonneg:
  "manhattan_distance d s = Inr m \<Longrightarrow> 0 \<le> m"
  "linear_conflict d s = Inr c \<Longrightarrow> 0 \<le> c"
  by (auto simp: manhattan_distance_def linear_conflict_def
      dest: manhattan_loop_nonneg linear_conflict_loop_nonneg)

text \<open>
  Claim C1: both heuristics are zero at the goal board and non-negative on every board.
  The second half holds (\<open>heuristics_nonneg\<close>, and \<open>heuristics_return\<close> for valid
  boards). The first half fails for both functions
  at the notebook's own goal \<open>[[1, 2, 3], [4, 5, 6], [7, 8, 0]]\<close>:
  \<^verbatim>\<open>goal_positions\<close> sends tile \<open>i\<close> to \<open>(i // 3, i % 3)\<close>, the cell where \<open>i\<close> stands in
  \<open>[[0, 1, 2], [3, 4, 5], [6, 7, 8]]\<close>, one cell after its cell in the goal that
  \<^verbatim>\<open>is_goal\<close> tests, so the distance of the goal board to "the goal" is 12; and
  \<^verbatim>\<open>linear_conflict\<close> counts the blank as the value 0, which stands last in the goal's
  last row and last column behind two larger tiles each, so it counts 4.
\<close>

theorem heuristics_at_goal:
  "manhattan_distance PUZZLE_DIM (goal PUZZLE_DIM) = Inr 12 \<and>
   linear_conflict PUZZLE_DIM (goal PUZZLE_DIM) = Inr 4 \<and>
   is_goal PUZZLE_DIM (goal PUZZLE_DIM)"
  by code_simp

text \<open>
  Claim C2: \<^verbatim>\<open>manhattan_distance\<close> never exceeds the number of legal moves that lead from
  the goal to the board. The code's value exceeds it already after no move (12 against 0)
  and after the one move that slides the 6 down (11 against 1): the distance is measured
  to the shifted positions of \<^verbatim>\<open>goal_positions\<close>, not to the goal.
\<close>

theorem manhattan_overestimates:
  "play PUZZLE_DIM (goal PUZZLE_DIM) [] = Some (goal PUZZLE_DIM) \<and>
   manhattan_distance PUZZLE_DIM (goal PUZZLE_DIM) = Inr 12 \<and>
   play PUZZLE_DIM (goal PUZZLE_DIM) [((2, 2), (1, 2))] = Some [[1, 2, 3], [4, 5, 0], [7, 8, 6]] \<and>
   manhattan_distance PUZZLE_DIM [[1, 2, 3], [4, 5, 0], [7, 8, 6]] = Inr 11"
  by code_simp

subsection \<open>Beam search from the goal\<close>

lemma length_chop: "length (chop r c xs) = r"
  by (induction r c xs rule: chop.induct) auto

lemma shape_goal: "0 < d \<Longrightarrow> shape (goal d) = (d, d)"
  by (cases d) (auto simp: shape_def goal_def length_chop)

lemma difference_from_goal_goal: "0 < d \<Longrightarrow> difference_from_goal d (goal d) = Inr 0"
  by (simp add: difference_from_goal_def shape_goal broadcast_dim_def)

text \<open>
  Claim C10: \<^verbatim>\<open>beam_search\<close> called on the goal board returns at once: the loop condition
  \<^verbatim>\<open>priority_queue and not is_goal(state)\<close> is false before the first pop, and the result
  is the input board with 0 evaluated nodes and 0 visited boards, for every beam size,
  every sequence of random draws and every value of the floating-point score.
\<close>

theorem beam_search_goal:
  assumes "0 < d" and "is_goal d state"
  shows "beam_search d score rnd state beam_size = Some (Inr (state, 0, 0))"
proof -
  from assms have s: "state = goal d" by (simp add: is_goal_def)
  show ?thesis
    unfolding beam_search_def
    by (subst beam_loop.simps)
      (simp add: s difference_from_goal_goal assms(1) is_goal_def heappush_def)
qed

theorem beam_search_goal_witness:
  "0 < PUZZLE_DIM \<and> is_goal PUZZLE_DIM [[1, 2, 3], [4, 5, 6], [7, 8, 0]] \<and>
   beam_search PUZZLE_DIM (\<lambda>df m. 0.8 * real_of_int df + 0.2 * real_of_int m) (\<lambda>k. k)
     [[1, 2, 3], [4, 5, 6], [7, 8, 0]] 4 = Some (Inr ([[1, 2, 3], [4, 5, 6], [7, 8, 0]], 0, 0))"
proof -
  have d: "0 < PUZZLE_DIM" by (simp add: PUZZLE_DIM_def)
  have g: "is_goal PUZZLE_DIM [[1, 2, 3], [4, 5, 6], [7, 8, 0]]" by code_simp
  show ?thesis using d g beam_search_goal [OF d g] by simp
qed

subsection \<open>Arrays and \<^verbatim>\<open>do_action\<close>\<close>

lemma norm_index_less: "norm_index n i = Some k \<Longrightarrow> k < n"
  by (auto simp: norm_index_def split: if_splits)

lemma norm_pos_less:
  "norm_pos s p = Some q \<Longrightarrow> fst q < fst (shape s) \<and> snd q < snd (shape s)"
  by (auto simp: norm_pos_def split: option.splits dest: norm_index_less)

lemma is_array_row: "is_array s \<Longrightarrow> i < length s \<Longrightarrow> length (s ! i) = snd (shape s)"
  by (simp add: is_array_def list_all_length)

lemma shape_put: "shape (put s p v) = shape s"
  by (cases s; cases "fst p") (simp_all add: shape_def put_def)

lemma is_array_put: "is_array s \<Longrightarrow> is_array (put s p v)"
proof -
  assume a: "is_array s"
  have "length (put s p v ! n) = snd (shape s)" if "n < length s" for n
    using that a by (cases "n = fst p") (simp_all add: put_def is_array_row)
  then show ?thesis
    by (simp add: is_array_def shape_put list_all_length) (simp add: put_def)
qed

lemma norm_pos_put: "norm_pos (put s p v) q = norm_pos s q"
  by (simp add: norm_pos_def shape_put cong: option.case_cong)

lemma cell_put:
  "is_array s \<Longrightarrow> fst p < fst (shape s) \<Longrightarrow> snd p < snd (shape s) \<Longrightarrow>
   fst q < fst (shape s) \<Longrightarrow> snd q < snd (shape s) \<Longrightarrow>
   cell (put s p v) q = (if q = p then v else cell s q)"
  by (cases p; cases q) (auto simp: cell_def put_def nth_list_update is_array_row shape_def)

lemma do_action_eq:
  "do_action s a =
     (case norm_pos s (pos1 a) of
        None \<Rightarrow> Inl IndexError
      | Some p \<Rightarrow>
          (case norm_pos s (pos2 a) of
             None \<Rightarrow> Inl IndexError
           | Some q \<Rightarrow> Inr (put (put s p (cell s q)) q (cell s p))))"
proof -
  have np: "norm_pos (s[i := (s ! i)[j := v]]) r = norm_pos s r" for i j v r
    using norm_pos_put [of s "(i, j)" v r] by (simp add: put_def)
  show ?thesis
    by (auto simp: do_action_def getitem_def setitem_def cell_def put_def np
        split: option.splits)
qed

lemma array_eqI:
  assumes "is_array s" "is_array t" "shape s = shape t"
    and "\<And>i j. i < fst (shape s) \<Longrightarrow> j < snd (shape s) \<Longrightarrow> cell s (i, j) = cell t (i, j)"
  shows "s = t"
proof (rule nth_equalityI)
  show len: "length s = length t" using assms(3) by (simp add: shape_def)
  fix i assume i: "i < length s"
  show "s ! i = t ! i"
  proof (rule nth_equalityI)
    show "length (s ! i) = length (t ! i)"
      using i len assms(1-3) by (simp add: is_array_row)
    fix j assume "j < length (s ! i)"
    then have "j < snd (shape s)" using i assms(1) by (simp add: is_array_row)
    moreover have "i < fst (shape s)" using i by (simp add: shape_def)
    ultimately show "s ! i ! j = t ! i ! j" using assms(4) [of i j] by (simp add: cell_def)
  qed
qed

lemma exchanged_put:
  assumes "is_array s" "fst p < fst (shape s)" "snd p < snd (shape s)"
    "fst q < fst (shape s)" "snd q < snd (shape s)"
  shows "exchanged s p q (put (put s p (cell s q)) q (cell s p))"
  unfolding exchanged_def
  using assms by (auto simp: shape_put is_array_put cell_put)

lemma do_action_involution:
  assumes "is_array s" "do_action s a = Inr s'"
  shows "do_action s' a = Inr s"
proof -
  from assms(2) obtain p q where p: "norm_pos s (pos1 a) = Some p"
    and q: "norm_pos s (pos2 a) = Some q"
    and s': "s' = put (put s p (cell s q)) q (cell s p)"
    by (auto simp: do_action_eq split: option.splits)
  note pl = norm_pos_less [OF p] and ql = norm_pos_less [OF q]
  have arr: "is_array s'" by (simp add: s' is_array_put assms(1))
  have sh: "shape s' = shape s" by (simp add: s' shape_put)
  have "do_action s' a = Inr (put (put s' p (cell s' q)) q (cell s' p))"
    by (simp add: do_action_eq s' norm_pos_put p q)
  moreover have "put (put s' p (cell s' q)) q (cell s' p) = s"
  proof (rule array_eqI)
    show "is_array (put (put s' p (cell s' q)) q (cell s' p))" by (simp add: is_array_put arr)
    show "is_array s" by fact
    show "shape (put (put s' p (cell s' q)) q (cell s' p)) = shape s" by (simp add: shape_put sh)
    fix i j
    assume "i < fst (shape (put (put s' p (cell s' q)) q (cell s' p)))"
      and "j < snd (shape (put (put s' p (cell s' q)) q (cell s' p)))"
    then have ij: "i < fst (shape s)" "j < snd (shape s)" by (simp_all add: shape_put sh)
    show "cell (put (put s' p (cell s' q)) q (cell s' p)) (i, j) = cell s (i, j)"
      using ij pl ql assms(1)
      by (auto simp: s' cell_put shape_put is_array_put)
  qed
  ultimately show ?thesis by simp
qed

lemma valid_board_array: "valid_board d s \<Longrightarrow> shape s = (d, d) \<and> is_array s"
  by (cases s) (auto simp: valid_board_def shape_def is_array_def)

lemma norm_pos_nat:
  "i < fst (shape s) \<Longrightarrow> j < snd (shape s) \<Longrightarrow> norm_pos s (int i, int j) = Some (i, j)"
  by (simp add: norm_pos_def norm_index_def)

lemma set_where_zero:
  "set (where_zero s) = {(i, j). i < length s \<and> j < length (s ! i) \<and> s ! i ! j = 0}"
  by (auto simp: where_zero_def)

lemma valid_board_has_zero:
  assumes "valid_board d s"
  shows "where_zero s \<noteq> []"
proof -
  from assms have "0 < d * d" and srt: "sort (concat s) = map int [0..<d * d]"
    by (simp_all add: valid_board_def)
  then have "(0::int) \<in> set (map int [0..<d * d])" by (auto simp: image_iff)
  with srt have "(0::int) \<in> set (concat s)" by (metis set_sort)
  then obtain r where r: "r \<in> set s" "0 \<in> set r" by auto
  then obtain i j where "i < length s" "s ! i = r" "j < length r" "r ! j = 0"
    by (auto simp: in_set_conv_nth)
  then have "(i, j) \<in> set (where_zero s)" by (auto simp: set_where_zero)
  then show ?thesis by auto
qed

lemma distinct_concat_cells:
  "distinct (concat xss) \<Longrightarrow> i < length xss \<Longrightarrow> i' < length xss \<Longrightarrow>
   j < length (xss ! i) \<Longrightarrow> j' < length (xss ! i') \<Longrightarrow>
   xss ! i ! j = xss ! i' ! j' \<Longrightarrow> i = i' \<and> j = j'"
proof (induction xss arbitrary: i i')
  case Nil
  then show ?case by simp
next
  case (Cons xs xss)
  from Cons.prems(1) have dx: "distinct xs" and dr: "distinct (concat xss)"
    and disj: "set xs \<inter> set (concat xss) = {}" by auto
  have mem: "xss ! k ! l \<in> set (concat xss)" if "k < length xss" "l < length (xss ! k)" for k l
    using that by (auto intro!: bexI [of _ "xss ! k"])
  show ?case
  proof (cases i; cases i')
    fix k k' assume "i = Suc k" "i' = Suc k'"
    with Cons.prems Cons.IH [OF dr, of k k'] show ?thesis by simp
  next
    fix k' assume c: "i = 0" "i' = Suc k'"
    with Cons.prems have "j < length xs" and e: "xs ! j = xss ! k' ! j'"
      and "k' < length xss" "j' < length (xss ! k')" by simp_all
    then have "xs ! j \<in> set xs" "xss ! k' ! j' \<in> set (concat xss)"
      using mem [of k' j'] nth_mem [of j xs] by blast+
    with disj e show ?thesis by (metis disjoint_iff)
  next
    fix k assume c: "i = Suc k" "i' = 0"
    with Cons.prems have "j' < length xs" and e: "xss ! k ! j = xs ! j'"
      and "k < length xss" "j < length (xss ! k)" by simp_all
    then have "xs ! j' \<in> set xs" "xss ! k ! j \<in> set (concat xss)"
      using mem [of k j] nth_mem [of j' xs] by blast+
    with disj e show ?thesis by (metis disjoint_iff)
  next
    assume "i = 0" "i' = 0"
    with Cons.prems dx show ?thesis by (simp add: nth_eq_iff_index_eq)
  qed
qed

subsection \<open>The heuristics on valid boards\<close>

lemma valid_board_cell_range:
  assumes "valid_board d s" "x < d" "y < d"
  shows "0 \<le> s ! x ! y \<and> s ! x ! y < int (d * d)"
proof -
  from assms(1) have len: "length s = d" and rows: "list_all (\<lambda>r. length r = d) s"
    and srt: "sort (concat s) = map int [0..<d * d]"
    by (simp_all add: valid_board_def)
  from rows len assms(2) have "length (s ! x) = d" by (simp add: list_all_length)
  with assms(2,3) len have "s ! x ! y \<in> set (concat s)"
    by (auto intro!: bexI [of _ "s ! x"])
  also have "set (concat s) = set (map int [0..<d * d])" using srt by (metis set_sort)
  finally obtain k where "s ! x ! y = int k" "k < d * d" by auto
  then show ?thesis by (simp del: of_nat_mult)
qed

lemma manhattan_loop_returns:
  assumes "valid_board d s" "\<forall>p \<in> set ps. fst p < d \<and> snd p < d"
  shows "\<exists>m. manhattan_loop d s ps acc = Inr m"
  using assms(2)
proof (induction ps arbitrary: acc)
  case Nil
  then show ?case by simp
next
  case (Cons p ps)
  obtain x y where p: "p = (x, y)" by (cases p)
  with Cons.prems have xy: "x < d" "y < d" by simp_all
  from valid_board_array [OF assms(1)] have sh: "shape s = (d, d)" by simp
  have g: "getitem s (int x, int y) = Inr (s ! x ! y)"
    using norm_pos_nat [of x s y] xy sh by (simp add: getitem_def)
  from valid_board_cell_range [OF assms(1) xy]
  have r: "0 \<le> s ! x ! y" "s ! x ! y < int (d * d)" by simp_all
  have ih: "\<exists>m. manhattan_loop d s ps acc' = Inr m" for acc'
    using Cons.IH Cons.prems by simp
  show ?case
  proof (cases "s ! x ! y = 0")
    case True
    then show ?thesis using g ih by (simp add: p)
  next
    case False
    with r have "goal_positions d (s ! x ! y) = Some (s ! x ! y div int d, s ! x ! y mod int d)"
      by (simp add: goal_positions_def power2_eq_square)
    with False g ih show ?thesis by (simp add: p)
  qed
qed

lemma linear_conflict_loop_returns:
  assumes "shape s = (d, d)" "\<forall>i \<in> set is. i < d"
  shows "\<exists>c. linear_conflict_loop s is acc = Inr c"
  using assms(2)
  by (induction "is" arbitrary: acc) (simp_all add: assms(1))

text \<open>On a valid board both heuristics return, and return a non-negative number.\<close>

lemma heuristics_return:
  assumes "valid_board d s"
  shows "\<exists>m c. manhattan_distance d s = Inr m \<and> linear_conflict d s = Inr c \<and> 0 \<le> m \<and> 0 \<le> c"
proof -
  from manhattan_loop_returns [OF assms, of "List.product [0..<d] [0..<d]" 0]
  obtain m where m: "manhattan_distance d s = Inr m"
    by (auto simp: manhattan_distance_def)
  from valid_board_array [OF assms] have "shape s = (d, d)" by simp
  from linear_conflict_loop_returns [OF this, of "[0..<d]" 0]
  obtain c where c: "linear_conflict d s = Inr c"
    by (auto simp: linear_conflict_def)
  from m c heuristics_nonneg show ?thesis by blast
qed

subsection \<open>The moves of a valid board\<close>

lemma blank_position:
  assumes "valid_board d s"
  shows "\<exists>i j rest. where_zero s = (i, j) # rest \<and> i < d \<and> j < d \<and> cell s (i, j) = 0 \<and>
    (\<forall>p. fst p < d \<and> snd p < d \<and> cell s p = 0 \<longrightarrow> p = (i, j))"
proof -
  from valid_board_has_zero [OF assms] obtain i j rest where w: "where_zero s = (i, j) # rest"
    by (cases "where_zero s") auto
  then have "(i, j) \<in> set (where_zero s)" by simp
  then have ij: "i < length s" "j < length (s ! i)" "s ! i ! j = 0"
    by (auto simp: set_where_zero)
  from assms have len: "length s = d" and rows: "\<And>k. k < d \<Longrightarrow> length (s ! k) = d"
    and srt: "sort (concat s) = map int [0..<d * d]"
    by (auto simp: valid_board_def list_all_length)
  have "distinct (map int [0..<d * d])" by (simp add: distinct_map)
  with srt have dist: "distinct (concat s)" by (metis distinct_sort)
  have id: "i < d" "j < d" using ij(1,2) len rows [of i] by simp_all
  have uniq: "p = (i, j)" if p: "fst p < d" "snd p < d" "cell s p = 0" for p
  proof -
    have "fst p < length s" "snd p < length (s ! fst p)"
      using p(1,2) len rows [of "fst p"] by simp_all
    moreover have "s ! fst p ! snd p = s ! i ! j" using p(3) ij(3) by (simp add: cell_def)
    ultimately have "fst p = i \<and> snd p = j"
      using distinct_concat_cells [OF dist, of "fst p" i "snd p" j] ij(1,2) by blast
    then show ?thesis by (cases p) simp
  qed
  have "cell s (i, j) = 0" using ij(3) by (simp add: cell_def)
  with w id uniq show ?thesis by blast
qed

lemma available_actions_blank:
  assumes "where_zero s = (i, j) # rest" "i < d" "j < d"
  shows "available_actions d s = Inr (filter (\<lambda>a. in_grid d (pos2 a)) (neighbours (i, j)))"
  using assms
  by (auto simp: available_actions_def neighbours_def in_grid_def pos2_def Let_def)

lemma length_neighbours:
  "length (filter (\<lambda>a. in_grid d (pos2 a)) (neighbours (i, j))) =
     (if 0 < i \<and> i \<le> d \<and> j < d then 1 else 0) + (if i + 1 < d \<and> j < d then 1 else 0) +
     (if 0 < j \<and> j \<le> d \<and> i < d then 1 else 0) + (if j + 1 < d \<and> i < d then 1 else 0)"
  by (simp add: neighbours_def in_grid_def pos2_def Let_def) 

lemma set_neighbours:
  "a \<in> set (neighbours (i, j)) \<Longrightarrow> pos1 a = (int i, int j) \<and> adjacent (pos1 a) (pos2 a)"
  by (auto simp: neighbours_def pos1_def pos2_def adjacent_def Let_def)

text \<open>
  Claim C5: on a valid board \<^verbatim>\<open>available_actions\<close> succeeds. The board has exactly one
  blank cell \<open>(i, j)\<close>, and the result is the list of the moves from \<open>(i, j)\<close> to its
  neighbours up, down, left, right, in this order, without those that leave the grid. So
  every move has \<^verbatim>\<open>pos1\<close> at the blank and \<^verbatim>\<open>pos2\<close> next to it inside the grid; there is
  no move on the \<open>1 \<times> 1\<close> board and there are between 2 and 4 on every larger one; on
  the \<open>3 \<times> 3\<close> board there are 4 from the centre, 3 from an edge and 2 from a corner.
\<close>

theorem available_actions_valid:
  assumes "valid_board d s"
  shows "\<exists>i j acts. i < d \<and> j < d \<and> cell s (i, j) = 0 \<and>
           (\<forall>p. fst p < d \<and> snd p < d \<and> cell s p = 0 \<longrightarrow> p = (i, j)) \<and>
           available_actions d s = Inr acts \<and>
           acts = filter (\<lambda>a. in_grid d (pos2 a)) (neighbours (i, j)) \<and>
           (\<forall>a \<in> set acts. pos1 a = (int i, int j) \<and> in_grid d (pos2 a) \<and>
                            adjacent (pos1 a) (pos2 a)) \<and>
           (d = 1 \<longrightarrow> acts = []) \<and>
           (2 \<le> d \<longrightarrow> 2 \<le> length acts \<and> length acts \<le> 4) \<and>
           (d = 3 \<longrightarrow> length acts =
              (if i = 1 \<and> j = 1 then 4 else if i = 1 \<or> j = 1 then 3 else 2))"
proof -
  from assms obtain i j rest where w: "where_zero s = (i, j) # rest" and ij: "i < d" "j < d"
    and z: "cell s (i, j) = 0"
    and u: "\<forall>p. fst p < d \<and> snd p < d \<and> cell s p = 0 \<longrightarrow> p = (i, j)"
    using blank_position by blast
  define acts where "acts = filter (\<lambda>a. in_grid d (pos2 a)) (neighbours (i, j))"
  have av: "available_actions d s = Inr acts"
    unfolding acts_def by (rule available_actions_blank [OF w ij])
  have each: "\<forall>a \<in> set acts. pos1 a = (int i, int j) \<and> in_grid d (pos2 a) \<and>
      adjacent (pos1 a) (pos2 a)"
    unfolding acts_def by (auto dest: set_neighbours)
  have len: "length acts =
     (if 0 < i then 1 else 0) + (if i + 1 < d then 1 else 0) +
     (if 0 < j then 1 else 0) + (if j + 1 < d then 1 else 0)"
    unfolding acts_def length_neighbours using ij by simp
  have one: "d = 1 \<longrightarrow> acts = []"
    using ij len by (auto simp del: length_0_conv simp: length_0_conv [symmetric])
  have bounds: "2 \<le> d \<longrightarrow> 2 \<le> length acts \<and> length acts \<le> 4"
    unfolding len using ij by (simp split: if_splits)
  have three: "d = 3 \<longrightarrow> length acts =
      (if i = 1 \<and> j = 1 then 4 else if i = 1 \<or> j = 1 then 3 else 2)"
    unfolding len using ij by (auto split: if_splits)
  show ?thesis
  proof (intro exI conjI)
    show "i < d" "j < d" by fact+
    show "cell s (i, j) = 0" by fact
    show "\<forall>p. fst p < d \<and> snd p < d \<and> cell s p = 0 \<longrightarrow> p = (i, j)" by fact
    show "available_actions d s = Inr acts" by fact
    show "acts = filter (\<lambda>a. in_grid d (pos2 a)) (neighbours (i, j))" by fact
    show "\<forall>a \<in> set acts. pos1 a = (int i, int j) \<and> in_grid d (pos2 a) \<and>
      adjacent (pos1 a) (pos2 a)" by fact
    show "d = 1 \<longrightarrow> acts = []" by fact
    show "2 \<le> d \<longrightarrow> 2 \<le> length acts \<and> length acts \<le> 4" by fact
    show "d = 3 \<longrightarrow> length acts =
      (if i = 1 \<and> j = 1 then 4 else if i = 1 \<or> j = 1 then 3 else 2)" by fact
  qed
qed

theorem available_actions_valid_witness:
  "valid_board PUZZLE_DIM [[1, 2, 3], [4, 0, 6], [7, 8, 5]] \<and>
   (\<exists>i j acts. i < PUZZLE_DIM \<and> j < PUZZLE_DIM \<and>
      cell [[1, 2, 3], [4, 0, 6], [7, 8, 5]] (i, j) = 0 \<and>
      (\<forall>p. fst p < PUZZLE_DIM \<and> snd p < PUZZLE_DIM \<and>
           cell [[1, 2, 3], [4, 0, 6], [7, 8, 5]] p = 0 \<longrightarrow> p = (i, j)) \<and>
      available_actions PUZZLE_DIM [[1, 2, 3], [4, 0, 6], [7, 8, 5]] = Inr acts \<and>
      acts = filter (\<lambda>a. in_grid PUZZLE_DIM (pos2 a)) (neighbours (i, j)) \<and>
      (\<forall>a \<in> set acts. pos1 a = (int i, int j) \<and> in_grid PUZZLE_DIM (pos2 a) \<and>
                       adjacent (pos1 a) (pos2 a)) \<and>
      (PUZZLE_DIM = 1 \<longrightarrow> acts = []) \<and>
      (2 \<le> PUZZLE_DIM \<longrightarrow> 2 \<le> length acts \<and> length acts \<le> 4) \<and>
      (PUZZLE_DIM = 3 \<longrightarrow> length acts =
         (if i = 1 \<and> j = 1 then 4 else if i = 1 \<or> j = 1 then 3 else 2)))"
proof -
  have v: "valid_board PUZZLE_DIM [[1, 2, 3], [4, 0, 6], [7, 8, 5]]" by code_simp
  show ?thesis using v available_actions_valid [OF v] by (rule conjI)
qed

lemma norm_pos_in_grid:
  assumes "shape s = (d, d)" "in_grid d p"
  shows "norm_pos s p = Some (nat (fst p), nat (snd p))"
  using assms by (simp add: norm_pos_def norm_index_def in_grid_def)

lemma legal_move_positions:
  assumes "valid_board d b" "available_actions d b = Inr acts" "m \<in> set acts"
  shows "\<exists>p q. norm_pos b (pos1 m) = Some p \<and> norm_pos b (pos2 m) = Some q \<and>
           cell b p = 0 \<and> pos1 m = (int (fst p), int (snd p)) \<and>
           pos2 m = (int (fst q), int (snd q)) \<and> adjacent (pos1 m) (pos2 m)"
proof -
  from assms(1) obtain i j rest where w: "where_zero b = (i, j) # rest" and ij: "i < d" "j < d"
    and z: "cell b (i, j) = 0"
    using blank_position by blast
  from assms(2) available_actions_blank [OF w ij]
  have acts: "acts = filter (\<lambda>a. in_grid d (pos2 a)) (neighbours (i, j))" by simp
  with assms(3) have m: "m \<in> set (neighbours (i, j))" and g: "in_grid d (pos2 m)" by simp_all
  from set_neighbours [OF m] have p1: "pos1 m = (int i, int j)"
    and adj: "adjacent (pos1 m) (pos2 m)" by blast+
  from valid_board_array [OF assms(1)] have sh: "shape b = (d, d)" by simp
  have n1: "norm_pos b (pos1 m) = Some (i, j)"
    using norm_pos_nat [of i b j] ij sh by (simp add: p1)
  have n2: "norm_pos b (pos2 m) = Some (nat (fst (pos2 m)), nat (snd (pos2 m)))"
    by (rule norm_pos_in_grid [OF sh g])
  have p2: "pos2 m = (int (nat (fst (pos2 m))), int (nat (snd (pos2 m))))"
    using g by (simp add: in_grid_def)
  from n1 n2 z p1 p2 adj show ?thesis by force
qed

text \<open>
  Claim C6: a move of \<^verbatim>\<open>available_actions\<close> on a valid board is its own inverse:
  \<^verbatim>\<open>do_action\<close> succeeds with it, succeeds again on the result, and gives the board back.
\<close>

theorem do_action_self_inverse:
  assumes "valid_board d b" "available_actions d b = Inr acts" "m \<in> set acts"
  shows "\<exists>b'. do_action b m = Inr b' \<and> do_action b' m = Inr b"
proof -
  from legal_move_positions [OF assms] obtain p q
    where "norm_pos b (pos1 m) = Some p" "norm_pos b (pos2 m) = Some q" by blast
  then have "do_action b m = Inr (put (put b p (cell b q)) q (cell b p))"
    by (simp add: do_action_eq)
  moreover from valid_board_array [OF assms(1)] have "is_array b" by simp
  ultimately show ?thesis using do_action_involution by blast
qed

theorem do_action_self_inverse_witness:
  "valid_board PUZZLE_DIM [[1, 2, 3], [4, 5, 6], [7, 8, 0]] \<and>
   available_actions PUZZLE_DIM [[1, 2, 3], [4, 5, 6], [7, 8, 0]]
     = Inr [((2, 2), (1, 2)), ((2, 2), (2, 1))] \<and>
   (((2, 2), (1, 2)) :: action) \<in> set [((2, 2), (1, 2)), ((2, 2), (2, 1))] \<and>
   (\<exists>b'. do_action [[1, 2, 3], [4, 5, 6], [7, 8, 0]] ((2, 2), (1, 2)) = Inr b' \<and>
         do_action b' ((2, 2), (1, 2)) = Inr [[1, 2, 3], [4, 5, 6], [7, 8, 0]])"
proof -
  have v: "valid_board PUZZLE_DIM [[1, 2, 3], [4, 5, 6], [7, 8, 0]]" by code_simp
  have a: "available_actions PUZZLE_DIM [[1, 2, 3], [4, 5, 6], [7, 8, 0]]
     = Inr [((2, 2), (1, 2)), ((2, 2), (2, 1))]" by code_simp
  have m: "(((2, 2), (1, 2)) :: action) \<in> set [((2, 2), (1, 2)), ((2, 2), (2, 1))]"
    by simp
  from do_action_self_inverse [OF v a m] v a m show ?thesis by blast
qed

subsection \<open>\<^verbatim>\<open>do_action\<close> on objects, and what it checks\<close>

lemma do_action_obj_eq:
  assumes "state < length \<sigma>"
  shows "do_action_obj \<sigma> state a =
     (case do_action (\<sigma> ! state) a of
        Inl e \<Rightarrow> (Inl e, \<sigma> @ [\<sigma> ! state])
      | Inr s' \<Rightarrow> (Inr (length \<sigma>), \<sigma> @ [s']))"
proof -
  have np: "norm_pos (s[i := (s ! i)[j := v]]) r = norm_pos s r" for s i j v r
    using norm_pos_put [of s "(i, j)" v r] by (simp add: put_def)
  show ?thesis
    by (auto simp: do_action_obj_def copy_obj_def setitem_obj_def do_action_def
        getitem_def setitem_def np split: option.splits)
qed

text \<open>
  Claim C9: \<^verbatim>\<open>do_action\<close> does not change its argument. Whatever the move, every array
  that was in the store before the call, the argument among them, is the same after it,
  also when the call raises. When the call returns, its result is a new object, at an
  address that was not in use, and it holds the argument's cells with those at the two
  positions of the move exchanged.
\<close>

theorem do_action_obj_frame:
  assumes "state < length \<sigma>" "is_array (\<sigma> ! state)" "do_action_obj \<sigma> state a = (res, \<sigma>')"
  shows "\<sigma>' ! state = \<sigma> ! state \<and> (\<forall>r < length \<sigma>. \<sigma>' ! r = \<sigma> ! r) \<and>
         (\<forall>new. res = Inr new \<longrightarrow>
            new \<noteq> state \<and> new = length \<sigma> \<and> length \<sigma>' = Suc (length \<sigma>) \<and>
            (\<exists>p q. norm_pos (\<sigma> ! state) (pos1 a) = Some p \<and>
                   norm_pos (\<sigma> ! state) (pos2 a) = Some q \<and>
                   exchanged (\<sigma> ! state) p q (\<sigma>' ! new)))"
proof (cases "do_action (\<sigma> ! state) a")
  case (Inl e)
  with assms(1,3) have "res = Inl e" "\<sigma>' = \<sigma> @ [\<sigma> ! state]"
    by (simp_all add: do_action_obj_eq)
  with assms(1) show ?thesis by (simp add: nth_append)
next
  case (Inr s')
  with assms(1,3) have r: "res = Inr (length \<sigma>)" "\<sigma>' = \<sigma> @ [s']"
    by (simp_all add: do_action_obj_eq)
  from Inr obtain p q where p: "norm_pos (\<sigma> ! state) (pos1 a) = Some p"
    and q: "norm_pos (\<sigma> ! state) (pos2 a) = Some q"
    and s': "s' = put (put (\<sigma> ! state) p (cell (\<sigma> ! state) q)) q (cell (\<sigma> ! state) p)"
    by (auto simp: do_action_eq split: option.splits)
  have "exchanged (\<sigma> ! state) p q s'"
    unfolding s' using assms(2) norm_pos_less [OF p] norm_pos_less [OF q]
    by (intro exchanged_put) simp_all
  with r p q assms(1) show ?thesis by (simp add: nth_append)
qed

theorem do_action_obj_frame_witness:
  "(0::nat) < length [[[1, 2, 3], [4, 5, 6], [7, 8, 0]]] \<and>
   is_array ([[[1, 2, 3], [4, 5, 6], [7, 8, 0]]] ! 0) \<and>
   do_action_obj [[[1, 2, 3], [4, 5, 6], [7, 8, 0]]] 0 ((2, 2), (1, 2))
     = (Inr 1, [[[1, 2, 3], [4, 5, 6], [7, 8, 0]], [[1, 2, 3], [4, 5, 0], [7, 8, 6]]]) \<and>
   [[[1, 2, 3], [4, 5, 6], [7, 8, 0]], [[1, 2, 3], [4, 5, 0], [7, 8, 6]]] ! 0
     = [[[1, 2, 3], [4, 5, 6], [7, 8, 0]]] ! 0 \<and>
   exchanged [[1, 2, 3], [4, 5, 6], [7, 8, 0]] (2, 2) (1, 2) [[1, 2, 3], [4, 5, 0], [7, 8, 6]]"
proof -
  let ?b = "[[1, 2, 3], [4, 5, 6], [7, 8, 0 :: int]]"
  let ?b' = "[[1, 2, 3], [4, 5, 0], [7, 8, 6 :: int]]"
  have l: "(0::nat) < length [?b]" by simp
  have a: "is_array ([?b] ! 0)" by code_simp
  have r: "do_action_obj [?b] 0 ((2, 2), (1, 2)) = (Inr 1, [?b, ?b'])" by code_simp
  have n: "norm_pos ?b (pos1 ((2, 2), (1, 2))) = Some (2, 2)"
    "norm_pos ?b (pos2 ((2, 2), (1, 2))) = Some (1, 2)" by code_simp+
  from do_action_obj_frame [OF l a r] n l a r show ?thesis by simp
qed

text \<open>
  Claim C3, as amended. The claim asks for an \<^verbatim>\<open>InvalidMoveError\<close> for every move that is
  not the blank and a neighbour of it; the notebook has no such error and no such test.
  What holds: \<^verbatim>\<open>do_action\<close> fails only with \<^verbatim>\<open>IndexError\<close>, and exactly when a coordinate
  of \<^verbatim>\<open>pos1\<close> or \<^verbatim>\<open>pos2\<close> is outside the index range of the array (negative indices
  count from the end); for every other move, with or without the blank, adjacent or not,
  it returns the board with the two cells exchanged. For a move of \<^verbatim>\<open>available_actions\<close>
  on the same valid board it succeeds, \<^verbatim>\<open>pos1\<close> is the blank, \<^verbatim>\<open>pos2\<close> is next to it and
  the result is the board with the two cells exchanged.
\<close>

theorem do_action_no_validation:
  assumes "is_array s"
  shows "(\<forall>e. do_action s a = Inl e \<longleftrightarrow>
             e = IndexError \<and> (norm_pos s (pos1 a) = None \<or> norm_pos s (pos2 a) = None)) \<and>
         (\<forall>p q. norm_pos s (pos1 a) = Some p \<and> norm_pos s (pos2 a) = Some q \<longrightarrow>
             (\<exists>s'. do_action s a = Inr s' \<and> exchanged s p q s')) \<and>
         (\<forall>d acts. valid_board d s \<and> available_actions d s = Inr acts \<and> a \<in> set acts \<longrightarrow>
             (\<exists>p q s'. norm_pos s (pos1 a) = Some p \<and> norm_pos s (pos2 a) = Some q \<and>
                cell s p = 0 \<and> adjacent (pos1 a) (pos2 a) \<and>
                do_action s a = Inr s' \<and> exchanged s p q s'))"
proof (intro conjI allI impI)
  fix e
  show "do_action s a = Inl e \<longleftrightarrow>
      e = IndexError \<and> (norm_pos s (pos1 a) = None \<or> norm_pos s (pos2 a) = None)"
    by (auto simp: do_action_eq split: option.splits)
next
  fix p q
  assume pq: "norm_pos s (pos1 a) = Some p \<and> norm_pos s (pos2 a) = Some q"
  then have "do_action s a = Inr (put (put s p (cell s q)) q (cell s p))"
    by (simp add: do_action_eq)
  moreover have "exchanged s p q (put (put s p (cell s q)) q (cell s p))"
    using assms pq norm_pos_less [of s "pos1 a" p] norm_pos_less [of s "pos2 a" q]
    by (intro exchanged_put) simp_all
  ultimately show "\<exists>s'. do_action s a = Inr s' \<and> exchanged s p q s'" by blast
next
  fix d acts
  assume h: "valid_board d s \<and> available_actions d s = Inr acts \<and> a \<in> set acts"
  then obtain p q where p: "norm_pos s (pos1 a) = Some p" and q: "norm_pos s (pos2 a) = Some q"
    and z: "cell s p = 0" and adj: "adjacent (pos1 a) (pos2 a)"
    using legal_move_positions [of d s acts a] by blast
  then have "do_action s a = Inr (put (put s p (cell s q)) q (cell s p))"
    by (simp add: do_action_eq)
  moreover have "exchanged s p q (put (put s p (cell s q)) q (cell s p))"
    using assms norm_pos_less [OF p] norm_pos_less [OF q]
    by (intro exchanged_put) simp_all
  ultimately show "\<exists>p q s'. norm_pos s (pos1 a) = Some p \<and> norm_pos s (pos2 a) = Some q \<and>
                cell s p = 0 \<and> adjacent (pos1 a) (pos2 a) \<and>
                do_action s a = Inr s' \<and> exchanged s p q s'"
    using p q z adj by blast
qed

theorem do_action_no_validation_witness:
  "is_array [[1, 2, 3], [4, 5, 6], [7, 8, 0]] \<and>
   do_action [[1, 2, 3], [4, 5, 6], [7, 8, 0]] ((0, 0), (3, 0)) = Inl IndexError \<and>
   (\<exists>s'. do_action [[1, 2, 3], [4, 5, 6], [7, 8, 0]] ((0, 0), (0, 1)) = Inr s' \<and>
         exchanged [[1, 2, 3], [4, 5, 6], [7, 8, 0]] (0, 0) (0, 1) s') \<and>
   valid_board PUZZLE_DIM [[1, 2, 3], [4, 5, 6], [7, 8, 0]] \<and>
   available_actions PUZZLE_DIM [[1, 2, 3], [4, 5, 6], [7, 8, 0]]
     = Inr [((2, 2), (1, 2)), ((2, 2), (2, 1))] \<and>
   (\<exists>s'. do_action [[1, 2, 3], [4, 5, 6], [7, 8, 0]] ((2, 2), (1, 2)) = Inr s' \<and>
         exchanged [[1, 2, 3], [4, 5, 6], [7, 8, 0]] (2, 2) (1, 2) s')"
proof -
  let ?g = "[[1, 2, 3], [4, 5, 6], [7, 8, 0 :: int]]"
  let ?bad = "((0, 0), (3, 0)) :: action"
  let ?odd = "((0, 0), (0, 1)) :: action"
  let ?legal = "((2, 2), (1, 2)) :: action"
  have arr: "is_array ?g" by code_simp
  have bad: "norm_pos ?g (pos2 ?bad) = None" by code_simp
  have odd: "norm_pos ?g (pos1 ?odd) = Some (0, 0)" "norm_pos ?g (pos2 ?odd) = Some (0, 1)"
    by code_simp+
  have v: "valid_board PUZZLE_DIM ?g" by code_simp
  have av: "available_actions PUZZLE_DIM ?g = Inr [?legal, ((2, 2), (2, 1))]" by code_simp
  have leg: "norm_pos ?g (pos1 ?legal) = Some (2, 2)" "norm_pos ?g (pos2 ?legal) = Some (1, 2)"
    by code_simp+
  from do_action_no_validation [OF arr, of ?bad] bad
  have 1: "do_action ?g ?bad = Inl IndexError" by blast
  from do_action_no_validation [OF arr, of ?odd] odd
  have 2: "\<exists>s'. do_action ?g ?odd = Inr s' \<and> exchanged ?g (0, 0) (0, 1) s'" by blast
  from do_action_no_validation [OF arr, of ?legal] leg
  have 3: "\<exists>s'. do_action ?g ?legal = Inr s' \<and> exchanged ?g (2, 2) (1, 2) s'" by blast
  from arr 1 2 v av 3 show ?thesis by blast
qed

text \<open>
  The claim of C3 as it stands fails on the goal board, whose blank is at \<open>(2, 2)\<close>:
  the move \<open>((0, 0), (0, 1))\<close> exchanges the tiles 1 and 2, and the move
  \<open>((0, 0), (2, 2))\<close> carries the blank across the board; neither raises.
\<close>

theorem do_action_unchecked_counterexample:
  "available_actions PUZZLE_DIM [[1, 2, 3], [4, 5, 6], [7, 8, 0]]
     = Inr [((2, 2), (1, 2)), ((2, 2), (2, 1))] \<and>
   do_action [[1, 2, 3], [4, 5, 6], [7, 8, 0]] ((0, 0), (0, 1))
     = Inr [[2, 1, 3], [4, 5, 6], [7, 8, 0]] \<and>
   do_action [[1, 2, 3], [4, 5, 6], [7, 8, 0]] ((0, 0), (2, 2))
     = Inr [[0, 2, 3], [4, 5, 6], [7, 8, 1]]"
  by code_simp

subsection \<open>A* search\<close>

lemma expand_append:
  "expand d b path (xs @ ys) st =
     (case expand d b path xs st of Inl e \<Rightarrow> Inl e | Inr st1 \<Rightarrow> expand d b path ys st1)"
  by (induction xs arbitrary: st) (auto simp: Let_def split: sum.splits)

lemma expand_open_mono:
  "expand d b path acts st = Inr st' \<Longrightarrow> set (open_list st) \<subseteq> set (open_list st')"
proof (induction acts arbitrary: st)
  case Nil
  then show ?case by simp
next
  case (Cons a acts)
  from Cons.prems show ?case
    by (auto simp: Let_def heappush_def push_open_def add_closed_def
        split: sum.splits if_splits dest!: Cons.IH)
qed

lemma expand_closed_mono:
  "expand d b path acts st = Inr st' \<Longrightarrow> closed_set st |\<subseteq>| closed_set st'"
proof (induction acts arbitrary: st)
  case Nil
  then show ?case by simp
next
  case (Cons a acts)
  from Cons.prems show ?case
    by (auto simp: Let_def push_open_def add_closed_def
        split: sum.splits if_splits dest!: Cons.IH)
qed

lemma expand_frontier_closed:
  "expand d b path acts st = Inr st' \<Longrightarrow> frontier_closed st \<Longrightarrow> frontier_closed st'"
proof (induction acts arbitrary: st)
  case Nil
  then show ?case by simp
next
  case (Cons a acts)
  from Cons.prems(1) obtain nxt where nxt: "do_action b a = Inr nxt"
    by (auto split: sum.splits)
  show ?case
  proof (cases "tobytes nxt |\<in>| closed_set st")
    case True
    with Cons.prems nxt have "expand d b path acts st = Inr st'" by simp
    then show ?thesis using Cons.prems(2) by (rule Cons.IH)
  next
    case False
    with Cons.prems(1) nxt obtain m c where
      e: "expand d b path acts
            (add_closed (push_open st (m + 2 * c + int (length (path @ [a])), tobytes nxt, path @ [a]))
               (tobytes nxt)) = Inr st'"
      by (auto simp: Let_def split: sum.splits)
    have "frontier_closed
            (add_closed (push_open st (m + 2 * c + int (length (path @ [a])), tobytes nxt, path @ [a]))
               (tobytes nxt))"
      using Cons.prems(2) False
      by (auto simp: frontier_closed_def heappush_def push_open_def add_closed_def)
    with e show ?thesis by (rule Cons.IH)
  qed
qed

lemma expand_pushes_first:
  assumes "expand d b path (a # acts) st = Inr st'" "do_action b a = Inr nxt"
    "tobytes nxt |\<notin>| closed_set st"
  shows "\<exists>m c. manhattan_distance d nxt = Inr m \<and> linear_conflict d nxt = Inr c \<and>
           (int (length path) + 1 + (m + 2 * c), tobytes nxt, path @ [a]) \<in> set (open_list st') \<and>
           tobytes nxt |\<in>| closed_set st'"
proof -
  from assms obtain m c where m: "manhattan_distance d nxt = Inr m"
    and c: "linear_conflict d nxt = Inr c"
    and e: "expand d b path acts
            (add_closed (push_open st (m + 2 * c + int (length (path @ [a])), tobytes nxt, path @ [a]))
               (tobytes nxt)) = Inr st'"
    by (auto simp: Let_def split: sum.splits)
  have eq: "m + 2 * c + int (length (path @ [a])) = int (length path) + 1 + (m + 2 * c)" by simp
  from expand_open_mono [OF e] have "(int (length path) + 1 + (m + 2 * c), tobytes nxt, path @ [a]) \<in> set (open_list st')"
    unfolding eq by (auto simp: heappush_def push_open_def add_closed_def)
  moreover from expand_closed_mono [OF e] have "tobytes nxt |\<in>| closed_set st'"
    by (auto simp: add_closed_def)
  ultimately show ?thesis using m c by blast
qed

lemma A_star_body_cases:
  assumes "A_star_body d shp st = Inr (Inr st')"
  obtains f key path rest flat board acts where
    "heappop (open_list st) = ((f, key, path), rest)" "frombuffer key = Inr flat"
    "reshape flat shp = Inr board" "\<not> is_goal d board" "available_actions d board = Inr acts"
    "expand d board path acts (st\<lparr>open_list := rest\<rparr>) = Inr st'"
  using assms unfolding A_star_body_def
  by (auto split: prod.splits sum.splits if_splits)

lemma fold_min_mem: "fold min xs (x::'a::linorder) \<in> insert x (set xs)"
proof (induction xs arbitrary: x)
  case Nil
  then show ?case by simp
next
  case (Cons y ys)
  have "min y x = x \<or> min y x = y" by (auto simp: min_def)
  with Cons [of "min y x"] show ?case by auto
qed

lemma heappop_mem:
  assumes "h \<noteq> []" "heappop h = (e, rest)"
  shows "e \<in> set h \<and> set rest \<subseteq> set h"
proof -
  from assms(1) obtain x xs where h: "h = x # xs" by (cases h) auto
  have "heap_min h \<in> set h" using fold_min_mem [of xs x] by (simp add: heap_min_def h)
  moreover have "set (remove1 (heap_min h) h) \<subseteq> set h" by (rule set_remove1_subset)
  ultimately show ?thesis using assms(2) by (auto simp: heappop_def)
qed

lemma frontier_closed_rest:
  assumes "frontier_closed st" "set rest \<subseteq> set (open_list st)"
  shows "frontier_closed (st\<lparr>open_list := rest\<rparr>)"
  using assms by (auto simp: frontier_closed_def)

lemma A_star_body_frontier_closed:
  assumes "A_star_body d shp st = Inr (Inr st')" "open_list st \<noteq> []" "frontier_closed st"
  shows "frontier_closed st'"
proof -
  from assms(1) obtain f key path rest flat board acts where
    pop: "heappop (open_list st) = ((f, key, path), rest)"
    and ex: "expand d board path acts (st\<lparr>open_list := rest\<rparr>) = Inr st'"
    by (rule A_star_body_cases)
  from heappop_mem [OF assms(2) pop] have "set rest \<subseteq> set (open_list st)" by simp
  with assms(3) have "frontier_closed (st\<lparr>open_list := rest\<rparr>)" by (rule frontier_closed_rest)
  with ex show ?thesis by (rule expand_frontier_closed)
qed

lemma A_star_init_frontier_closed:
  assumes "A_star_init d s = Inr st0"
  shows "frontier_closed st0 \<and> pushed st0 = [tobytes s]"
  using assms
  by (auto simp: A_star_init_def frontier_closed_def heappush_def push_open_def add_closed_def
      split: sum.splits)

lemma A_star_iter_frontier_closed:
  "A_star_iter d shp n st0 = Some st \<Longrightarrow> frontier_closed st0 \<Longrightarrow> frontier_closed st"
proof (induction n arbitrary: st0)
  case 0
  then show ?case by simp
next
  case (Suc n)
  from Suc.prems(1) obtain st1 where ne: "open_list st0 \<noteq> []"
    and b: "A_star_body d shp st0 = Inr (Inr st1)" and it: "A_star_iter d shp n st1 = Some st"
    by (auto split: if_splits sum.splits)
  from A_star_body_frontier_closed [OF b ne Suc.prems(2)] it show ?case by (rule Suc.IH [rotated])
qed

lemma expand_pushed_prefix:
  "expand d b path acts st = Inr st' \<Longrightarrow> \<exists>ks. pushed st' = pushed st @ ks"
proof (induction acts arbitrary: st)
  case Nil
  then show ?case by simp
next
  case (Cons a acts)
  from Cons.prems show ?case
    by (auto simp: Let_def push_open_def add_closed_def
        split: sum.splits if_splits dest!: Cons.IH)
qed

lemma A_star_iter_pushed_prefix:
  "A_star_iter d shp n st0 = Some st \<Longrightarrow> \<exists>ks. pushed st = pushed st0 @ ks"
proof (induction n arbitrary: st0)
  case 0
  then show ?case by simp
next
  case (Suc n)
  from Suc.prems(1) obtain st1 where b: "A_star_body d shp st0 = Inr (Inr st1)"
    and it: "A_star_iter d shp n st1 = Some st"
    by (auto split: if_splits sum.splits)
  from b obtain ks where "pushed st1 = pushed st0 @ ks"
    by (elim A_star_body_cases) (auto dest: expand_pushed_prefix)
  with Suc.IH [OF it] show ?case by auto
qed

text \<open>
  Claim C7: in a run of \<^verbatim>\<open>A_star\<close> every key is in \<^verbatim>\<open>closed_set\<close> from the moment it is
  pushed, and no key is pushed twice. The start key is pushed and put into
  \<^verbatim>\<open>closed_set\<close> before the loop. At every later point of the run, at the head of the
  loop after any number of turns and inside a turn after any number of the successors
  have been handled, the keys pushed so far are pairwise different, they are exactly the
  members of \<^verbatim>\<open>closed_set\<close>, and every entry of \<^verbatim>\<open>open_list\<close> carries one of them.
\<close>

theorem A_star_enqueue_once:
  assumes "A_star_init d s = Inr st0" and "A_star_iter d shp n st0 = Some st"
  shows "pushed st0 = [tobytes s] \<and> closed_set st0 = {|tobytes s|} \<and>
         (\<exists>ks. pushed st = tobytes s # ks) \<and> frontier_closed st \<and>
         (\<forall>f key path rest flat board pre post st_mid.
            open_list st \<noteq> [] \<and> heappop (open_list st) = ((f, key, path), rest) \<and>
            frombuffer key = Inr flat \<and> reshape flat shp = Inr board \<and>
            available_actions d board = Inr (pre @ post) \<and>
            expand d board path pre (st\<lparr>open_list := rest\<rparr>) = Inr st_mid
            \<longrightarrow> frontier_closed st_mid)"
proof (intro conjI allI impI)
  from A_star_init_frontier_closed [OF assms(1)]
  have f0: "frontier_closed st0" and p0: "pushed st0 = [tobytes s]" by simp_all
  show "pushed st0 = [tobytes s]" by fact
  show "closed_set st0 = {|tobytes s|}"
    using assms(1) by (auto simp: A_star_init_def push_open_def add_closed_def split: sum.splits)
  show "\<exists>ks. pushed st = tobytes s # ks"
    using A_star_iter_pushed_prefix [OF assms(2)] p0 by simp
  show fc: "frontier_closed st" using assms(2) f0 by (rule A_star_iter_frontier_closed)
  fix f key path rest flat board pre post st_mid
  assume h: "open_list st \<noteq> [] \<and> heappop (open_list st) = ((f, key, path), rest) \<and>
            frombuffer key = Inr flat \<and> reshape flat shp = Inr board \<and>
            available_actions d board = Inr (pre @ post) \<and>
            expand d board path pre (st\<lparr>open_list := rest\<rparr>) = Inr st_mid"
  then have "set rest \<subseteq> set (open_list st)" using heappop_mem by blast
  with fc have "frontier_closed (st\<lparr>open_list := rest\<rparr>)" by (rule frontier_closed_rest)
  with h show "frontier_closed st_mid" using expand_frontier_closed by blast
qed

theorem A_star_enqueue_once_witness:
  "A_star_init PUZZLE_DIM [[1, 2, 3], [4, 5, 0], [7, 8, 6]]
     = Inr (projr (A_star_init PUZZLE_DIM [[1, 2, 3], [4, 5, 0], [7, 8, 6]])) \<and>
   A_star_iter PUZZLE_DIM (3, 3) 1 (projr (A_star_init PUZZLE_DIM [[1, 2, 3], [4, 5, 0], [7, 8, 6]]))
     = Some (the (A_star_iter PUZZLE_DIM (3, 3) 1
                    (projr (A_star_init PUZZLE_DIM [[1, 2, 3], [4, 5, 0], [7, 8, 6]])))) \<and>
   frontier_closed (the (A_star_iter PUZZLE_DIM (3, 3) 1
                    (projr (A_star_init PUZZLE_DIM [[1, 2, 3], [4, 5, 0], [7, 8, 6]])))) \<and>
   length (pushed (the (A_star_iter PUZZLE_DIM (3, 3) 1
                    (projr (A_star_init PUZZLE_DIM [[1, 2, 3], [4, 5, 0], [7, 8, 6]]))))) = 4"
proof -
  let ?s = "[[1, 2, 3], [4, 5, 0], [7, 8, 6 :: int]]"
  let ?ini = "projr (A_star_init PUZZLE_DIM ?s)"
  let ?fin = "the (A_star_iter PUZZLE_DIM (3, 3) 1 ?ini)"
  have i: "A_star_init PUZZLE_DIM ?s = Inr ?ini" by code_simp
  have it: "A_star_iter PUZZLE_DIM (3, 3) 1 ?ini = Some ?fin" by code_simp
  have l: "length (pushed ?fin) = 4" by code_simp
  from A_star_enqueue_once [OF i it] have "frontier_closed ?fin" by blast
  with i it l show ?thesis by blast
qed

lemma A_star_loop_iter:
  "A_star_iter d shp n st0 = Some st \<Longrightarrow> A_star_loop d shp st0 = A_star_loop d shp st"
proof (induction n arbitrary: st0)
  case 0
  then show ?case by simp
next
  case (Suc n)
  from Suc.prems(1) obtain st1 where ne: "open_list st0 \<noteq> []"
    and b: "A_star_body d shp st0 = Inr (Inr st1)" and it: "A_star_iter d shp n st1 = Some st"
    by (auto split: if_splits sum.splits)
  have "A_star_loop d shp st0 = A_star_loop d shp st1"
    by (subst A_star_loop.simps) (simp add: ne b)
  with Suc.IH [OF it] show ?case by simp
qed

text \<open>
  Claim C8: when a run of \<^verbatim>\<open>A_star\<close> reaches the head of the loop with an empty
  \<^verbatim>\<open>open_list\<close>, the call returns \<^verbatim>\<open>(None, -1, len(closed_set))\<close>; it does not raise.
  The third component is the number of keys that were pushed, which are pairwise
  different: the number of boards discovered.
\<close>

theorem A_star_exhausted:
  assumes "A_star_init d s = Inr st0" and "A_star_iter d (shape s) n st0 = Some st"
    and "open_list st = []"
  shows "A_star d s = Some (Inr (None, - 1, int (fcard (closed_set st)))) \<and>
         fcard (closed_set st) = length (pushed st) \<and> distinct (pushed st)"
proof -
  have "A_star d s = A_star_loop d (shape s) st0" by (simp add: A_star_def assms(1))
  also have "\<dots> = A_star_loop d (shape s) st" using assms(2) by (rule A_star_loop_iter)
  also have "\<dots> = Some (Inr (None, - 1, int (fcard (closed_set st))))"
    by (subst A_star_loop.simps) (simp add: assms(3))
  finally have r: "A_star d s = Some (Inr (None, - 1, int (fcard (closed_set st))))" .
  from A_star_init_frontier_closed [OF assms(1)] have "frontier_closed st0" by simp
  with assms(2) have fc: "frontier_closed st" by (rule A_star_iter_frontier_closed)
  then have "fcard (closed_set st) = length (pushed st)" "distinct (pushed st)"
    by (simp_all add: frontier_closed_def fcard.rep_eq distinct_card)
  with r show ?thesis by simp
qed

theorem A_star_exhausted_witness:
  "A_star_init 2 [[2, 1], [3, 0]] = Inr (projr (A_star_init 2 [[2, 1], [3, 0]])) \<and>
   A_star_iter 2 (shape [[2, 1], [3, 0]]) 12 (projr (A_star_init 2 [[2, 1], [3, 0]]))
     = Some (the (A_star_iter 2 (shape [[2, 1], [3, 0]]) 12
                    (projr (A_star_init 2 [[2, 1], [3, 0]])))) \<and>
   open_list (the (A_star_iter 2 (shape [[2, 1], [3, 0]]) 12
                    (projr (A_star_init 2 [[2, 1], [3, 0]])))) = [] \<and>
   A_star 2 [[2, 1], [3, 0]] = Some (Inr (None, - 1, 12))"
proof -
  let ?s = "[[2, 1], [3, 0 :: int]]"
  let ?ini = "projr (A_star_init 2 ?s)"
  let ?fin = "the (A_star_iter 2 (shape ?s) 12 ?ini)"
  have i: "A_star_init 2 ?s = Inr ?ini" by code_simp
  have it: "A_star_iter 2 (shape ?s) 12 ?ini = Some ?fin" by code_simp
  have e: "open_list ?fin = []" by code_simp
  have c: "fcard (closed_set ?fin) = 12" by code_simp
  from A_star_exhausted [OF i it e] have "A_star 2 ?s = Some (Inr (None, - 1, 12))"
    by (simp only: c) simp
  with i it e show ?thesis by blast
qed

text \<open>
  Claim C4: in a turn of the loop that pops \<^verbatim>\<open>(f, key, path)\<close> and decodes \<open>key\<close> to
  \<open>board\<close>, let \<open>a\<close> be one of the actions of \<open>board\<close>, \<open>nxt\<close> its successor, and let
  the key of \<open>nxt\<close> not be in \<^verbatim>\<open>closed_set\<close> when the \<^verbatim>\<open>for\<close> loop comes to \<open>a\<close> (after
  the actions \<open>pre\<close> before it). Then both heuristics return on \<open>nxt\<close>, and the entry
  with the priority \<open>(len(path) + 1) + (manhattan_distance(nxt) + 2 * linear_conflict(nxt))\<close>,
  the key of \<open>nxt\<close> and the path \<open>path + [a]\<close> is in \<^verbatim>\<open>open_list\<close> at the end of the turn;
  the key is in \<^verbatim>\<open>closed_set\<close>.
\<close>

theorem A_star_successor_priority:
  assumes "open_list st \<noteq> []"
    and "heappop (open_list st) = ((f, key, path), rest)"
    and "frombuffer key = Inr flat" and "reshape flat shp = Inr board"
    and "available_actions d board = Inr (pre @ a # post)"
    and "expand d board path pre (st\<lparr>open_list := rest\<rparr>) = Inr st_a"
    and "do_action board a = Inr nxt"
    and "tobytes nxt |\<notin>| closed_set st_a"
    and "A_star_body d shp st = Inr (Inr st')"
  shows "\<exists>m c. manhattan_distance d nxt = Inr m \<and> linear_conflict d nxt = Inr c \<and>
           (int (length path) + 1 + (m + 2 * c), tobytes nxt, path @ [a]) \<in> set (open_list st') \<and>
           tobytes nxt |\<in>| closed_set st'"
proof -
  from assms(9,2,3,4,5) have "\<not> is_goal d board"
    and "expand d board path (pre @ a # post) (st\<lparr>open_list := rest\<rparr>) = Inr st'"
    by (auto simp: A_star_body_def split: sum.splits if_splits)
  with assms(6) have "expand d board path (a # post) st_a = Inr st'"
    by (simp add: expand_append)
  from expand_pushes_first [OF this assms(7,8)] show ?thesis .
qed

theorem A_star_successor_priority_witness:
  "open_list (projr (A_star_init PUZZLE_DIM [[1, 2, 3], [4, 5, 0], [7, 8, 6]])) \<noteq> [] \<and>
   heappop (open_list (projr (A_star_init PUZZLE_DIM [[1, 2, 3], [4, 5, 0], [7, 8, 6]])))
     = ((11, tobytes [[1, 2, 3], [4, 5, 0], [7, 8, 6]], []), []) \<and>
   available_actions PUZZLE_DIM [[1, 2, 3], [4, 5, 0], [7, 8, 6]]
     = Inr ([((1, 2), (0, 2))] @ ((1, 2), (2, 2)) # [((1, 2), (1, 1))]) \<and>
   do_action [[1, 2, 3], [4, 5, 0], [7, 8, 6]] ((1, 2), (2, 2))
     = Inr [[1, 2, 3], [4, 5, 6], [7, 8, 0]] \<and>
   (21, tobytes [[1, 2, 3], [4, 5, 6], [7, 8, 0]], [((1, 2), (2, 2))])
     \<in> set (open_list (projr (projr (A_star_body PUZZLE_DIM (3, 3)
               (projr (A_star_init PUZZLE_DIM [[1, 2, 3], [4, 5, 0], [7, 8, 6]]))))))"
proof -
  let ?s = "[[1, 2, 3], [4, 5, 0], [7, 8, 6 :: int]]"
  let ?g = "[[1, 2, 3], [4, 5, 6], [7, 8, 0 :: int]]"
  let ?st = "projr (A_star_init PUZZLE_DIM ?s)"
  let ?pre = "[((1, 2), (0, 2))] :: action list"
  let ?a = "((1, 2), (2, 2)) :: action"
  let ?post = "[((1, 2), (1, 1))] :: action list"
  let ?mid = "projr (expand PUZZLE_DIM ?s [] ?pre (?st\<lparr>open_list := []\<rparr>))"
  let ?end = "projr (projr (A_star_body PUZZLE_DIM (3, 3) ?st))"
  have h1: "open_list ?st \<noteq> []" by code_simp
  have h2: "heappop (open_list ?st) = ((11, tobytes ?s, []), [])" by code_simp
  have h3: "frombuffer (tobytes ?s) = Inr (concat ?s)" by code_simp
  have h4: "reshape (concat ?s) (3, 3) = Inr ?s" by code_simp
  have h5: "available_actions PUZZLE_DIM ?s = Inr (?pre @ ?a # ?post)" by code_simp
  have h6: "expand PUZZLE_DIM ?s [] ?pre (?st\<lparr>open_list := []\<rparr>) = Inr ?mid" by code_simp
  have h7: "do_action ?s ?a = Inr ?g" by code_simp
  have h8: "tobytes ?g |\<notin>| closed_set ?mid" by code_simp
  have h9: "A_star_body PUZZLE_DIM (3, 3) ?st = Inr (Inr ?end)" by code_simp
  have m: "manhattan_distance PUZZLE_DIM ?g = Inr 12" by code_simp
  have c: "linear_conflict PUZZLE_DIM ?g = Inr 4" by code_simp
  from A_star_successor_priority [OF h1 h2 h3 h4 h5 h6 h7 h8 h9] m c
  have "(21, tobytes ?g, [?a]) \<in> set (open_list ?end)" by simp
  with h1 h2 h5 h7 show ?thesis by blast
qed

end
